theory Spec2Isabelle
  imports Main "HOL-Library.Code_Target_Nat"
begin

section \<open>Duplicate-lead detection and merging (scripts/merge_leads.py)\<close>

text \<open>
  The script walks all leads of a remote store oldest-first, searches the store for
  duplicates of each lead (by company name, e-mail or phone) and merges the duplicates
  into the lead being visited. The embedding follows the three parts of the source:
  \<^verbatim>\<open>find_duplicates_for_lead\<close>, \<^verbatim>\<open>merge_lead\<close> and the page loop under
  \<^verbatim>\<open>__main__\<close>.

  Modelling decisions.
  \<^item> The script is Python 2: JSON text is \<^verbatim>\<open>unicode\<close>, a sequence of code points,
    modelled as a list of naturals; \<^verbatim>\<open>val.encode('utf-8')\<close> and the query are byte
    strings, modelled as \<open>string\<close> (a list of 8-bit characters).
  \<^item> The remote store is not part of the repository. It is a parameter: a state of any
    type with a read operation and a merge operation. A read answers from the store and
    leaves it as it is; a merge request gives the next store (its response is only
    logged by the script). Every request the script sends is appended to a log, so
    that "no request was sent" is a statement about the log.
  \<^item> A lead is a record with the fields the script reads, and the comparison field is
    one of the three choices of the command line, so the lookups of the script find
    their keys and \<^verbatim>\<open>assert lead and comparator_field\<close> holds.
  \<^item> A run in which the client library raises on a request ends the script there; the
    model follows the runs in which every request is answered.
  \<^item> Logging and the progress bar write to the terminal only and are left out.
  \<^item> Python integers are unbounded: offsets and counters are \<open>int\<close>.
\<close>

subsection \<open>Data model\<close>

type_synonym unicode = "nat list"

text \<open>
  A contact as the script reads it: \<^verbatim>\<open>c['emails']\<close> is a list of entries \<^verbatim>\<open>e\<close> of
  which only \<^verbatim>\<open>e['email']\<close> is read, and likewise for phones; the record keeps these
  values, in order.
\<close>

record contact =
  emails :: "unicode list"
  phones :: "unicode list"

text \<open>The fields requested with \<^verbatim>\<open>_fields\<close>; of the opportunities their ids.\<close>

record lead =
  lead_id :: unicode
  display_name :: unicode
  name :: unicode
  status_label :: unicode
  contacts :: "contact list"
  opportunities :: "unicode list"

text \<open>\<^verbatim>\<open>--field\<close>, restricted by argparse to these three choices.\<close>

datatype field = Company | Email | Phone

record response =
  data :: "lead list"
  total_results :: int
  has_more :: bool

text \<open>The requests the script can send: \<^verbatim>\<open>api.get('lead', ...)\<close> and \<^verbatim>\<open>api.post('lead/merge', ...)\<close>.\<close>

datatype call = Get string int | Merge unicode unicode

text \<open>
  The client: \<open>api_get s query skip\<close> answers a search on the store \<open>s\<close>;
  \<open>api_post s source destination\<close> is the store after the merge request.
\<close>

record 's api =
  api_get :: "'s \<Rightarrow> string \<Rightarrow> int \<Rightarrow> response"
  api_post :: "'s \<Rightarrow> unicode \<Rightarrow> unicode \<Rightarrow> 's"

text \<open>The state of a run: the remote store and the log of requests sent so far.\<close>

record 's run =
  store :: 's
  calls :: "call list"

subsection \<open>Strings\<close>

text \<open>
  \<^verbatim>\<open>unicode.strip()\<close> and \<^verbatim>\<open>unicode.lower()\<close> read Python's Unicode character
  database, which is not part of the repository: which code points are white space, and
  the lower-case code point of each code point (in Python 2 one code point for one).
  The two tables are parameters of the model.
\<close>

record chartab =
  is_space :: "nat \<Rightarrow> bool"
  to_lower :: "nat \<Rightarrow> nat"

definition py_strip :: "chartab \<Rightarrow> unicode \<Rightarrow> unicode" where
  "py_strip tab s = rev (dropWhile (is_space tab) (rev (dropWhile (is_space tab) s)))"

definition py_lower :: "chartab \<Rightarrow> unicode \<Rightarrow> unicode" where
  "py_lower tab s = map (to_lower tab) s"

text \<open>The tables on ASCII, for running the definitions.\<close>

definition ascii_tab :: chartab where
  "ascii_tab =
     \<lparr>is_space = (\<lambda>c. c = 32 \<or> (9 \<le> c \<and> c \<le> 13) \<or> (28 \<le> c \<and> c \<le> 31)),
      to_lower = (\<lambda>c. if 65 \<le> c \<and> c \<le> 90 then c + 32 else c)\<rparr>"

text \<open>A literal of the theory as Python \<^verbatim>\<open>unicode\<close>: \<open>u ''Acme''\<close> is \<^verbatim>\<open>u'Acme'\<close>.\<close>

definition u :: "string \<Rightarrow> unicode" where
  "u s = map of_char s"

text \<open>\<^verbatim>\<open>val.encode('utf-8')\<close>: one to four bytes for each code point.\<close>

definition utf8_char :: "nat \<Rightarrow> string" where
  "utf8_char c =
     (if c < 0x80 then [char_of c]
      else if c < 0x800 then [char_of (0xC0 + c div 0x40), char_of (0x80 + c mod 0x40)]
      else if c < 0x10000 then
        [char_of (0xE0 + c div 0x1000), char_of (0x80 + c div 0x40 mod 0x40),
         char_of (0x80 + c mod 0x40)]
      else
        [char_of (0xF0 + c div 0x40000), char_of (0x80 + c div 0x1000 mod 0x40),
         char_of (0x80 + c div 0x40 mod 0x40), char_of (0x80 + c mod 0x40)])"

definition encode_utf8 :: "unicode \<Rightarrow> string" where
  "encode_utf8 val = concat (map utf8_char val)"

text \<open>
  The values on which the model of \<^verbatim>\<open>encode\<close> is Python's: sequences of Unicode
  scalar values (code points below \<open>0x110000\<close> that are not surrogates; Python 2 joins
  a pair of surrogates into one four-byte sequence). A value is \<open>quote_free\<close> when it
  is such a sequence without the double quote \<open>0x22\<close>.
\<close>

definition scalar_value :: "nat \<Rightarrow> bool" where
  "scalar_value c = (c < 0xD800 \<or> (0xE000 \<le> c \<and> c < 0x110000))"

definition quote_free :: "unicode \<Rightarrow> bool" where
  "quote_free val = (list_all scalar_value val \<and> 0x22 \<notin> set val)"

text \<open>\<^verbatim>\<open>sep.join(xs)\<close>.\<close>

fun join :: "string \<Rightarrow> string list \<Rightarrow> string" where
  "join sep [] = []"
| "join sep [x] = x"
| "join sep (x # y # ys) = x @ sep @ join sep (y # ys)"

subsection \<open>find\_duplicates\_for\_lead\<close>

fun field_name :: "field \<Rightarrow> string" where
  "field_name Company = ''company''"
| "field_name Email = ''email''"
| "field_name Phone = ''phone''"

text \<open>
  \<^verbatim>\<open>[e[comparator_field] for e in c[comparator_field_plural]]\<close>. The script reaches
  this only for e-mail and phone.
\<close>

fun elements :: "field \<Rightarrow> contact \<Rightarrow> unicode list" where
  "elements Email c = emails c"
| "elements Phone c = phones c"
| "elements Company c = []"

text \<open>\<^verbatim>\<open>'"%s"' % val.encode('utf-8')\<close>: the bytes of the value between two double quotes.\<close>

definition quoted :: "unicode \<Rightarrow> string" where
  "quoted val = [CHR 0x22] @ encode_utf8 val @ [CHR 0x22]"

text \<open>\<^verbatim>\<open>'{0} in ({1}) sort:date_created'.format(comparator_field, ', '.join(...))\<close>.\<close>

definition build_query :: "field \<Rightarrow> unicode list \<Rightarrow> string" where
  "build_query comparator_field search_values =
     field_name comparator_field @ '' in ('' @ join '', '' (map quoted search_values)
       @ '') sort:date_created''"

text \<open>
  The element values across a lead's contacts, in order:
  \<^verbatim>\<open>[e[comparator_field] for c in lead['contacts'] for e in c[comparator_field_plural]]\<close>.
\<close>

definition all_elements :: "field \<Rightarrow> lead \<Rightarrow> unicode list" where
  "all_elements comparator_field lead =
     concat (map (elements comparator_field) (contacts lead))"

text \<open>
  The \<^verbatim>\<open>for l in leads\<close> loop over one page of results: the input lead itself is
  passed over; a lead is appended to \<open>duplicates\<close> when its company name equals the
  input lead's after \<^verbatim>\<open>strip().lower()\<close> (company), or when its elements and the input
  lead's elements intersect (e-mail, phone).
\<close>

fun scan :: "chartab \<Rightarrow> field \<Rightarrow> lead \<Rightarrow> unicode set \<Rightarrow> lead list \<Rightarrow> lead list \<Rightarrow> lead list" where
  "scan tab comparator_field lead lead_elems [] duplicates = duplicates"
| "scan tab comparator_field lead lead_elems (l # leads) duplicates =
     (if lead_id l = lead_id lead then scan tab comparator_field lead lead_elems leads duplicates
      else if comparator_field = Company then
        (if py_lower tab (py_strip tab (name lead)) = py_lower tab (py_strip tab (name l))
         then scan tab comparator_field lead lead_elems leads (duplicates @ [l])
         else scan tab comparator_field lead lead_elems leads duplicates)
      else
        (let l_elems = set (all_elements comparator_field l);
             intersection = lead_elems \<inter> l_elems
         in if intersection \<noteq> {}
            then scan tab comparator_field lead lead_elems leads (duplicates @ [l])
            else scan tab comparator_field lead lead_elems leads duplicates))"

text \<open>
  The \<^verbatim>\<open>while has_more\<close> loop. Nothing in the script bounds it: a store that keeps
  answering \<^verbatim>\<open>has_more\<close> keeps it running, and then the result is \<open>None\<close>.
\<close>

partial_function (option) search_pages ::
  "'s api \<Rightarrow> chartab \<Rightarrow> field \<Rightarrow> lead \<Rightarrow> unicode set \<Rightarrow> string \<Rightarrow> int \<Rightarrow> lead list \<Rightarrow> 's run
     \<Rightarrow> (lead list \<times> 's run) option" where
  "search_pages api tab comparator_field lead lead_elems query offset duplicates st =
     (let resp = api_get api (store st) query offset;
          st' = st\<lparr>calls := calls st @ [Get query offset]\<rparr>;
          leads = data resp;
          duplicates' = scan tab comparator_field lead lead_elems leads duplicates
      in if has_more resp
         then search_pages api tab comparator_field lead lead_elems query
                (offset + int (length leads)) duplicates' st'
         else Some (duplicates', st'))"

definition find_duplicates_for_lead ::
  "'s api \<Rightarrow> chartab \<Rightarrow> lead \<Rightarrow> field \<Rightarrow> 's run \<Rightarrow> (lead list \<times> 's run) option" where
  "find_duplicates_for_lead api tab lead comparator_field st =
     (let search_values =
            (if comparator_field = Company then [name lead]
             else all_elements comparator_field lead);
          lead_elems =
            (if comparator_field = Company then {}
             else set (all_elements comparator_field lead))
      in if search_values \<noteq> []
         then search_pages api tab comparator_field lead lead_elems
                (build_query comparator_field search_values) 0 [] st
         else Some ([], st))"

subsection \<open>merge\_lead\<close>

text \<open>The \<^verbatim>\<open>for source_lead in duplicates\<close> loop: one POST per source lead.\<close>

fun merge_each :: "'s api \<Rightarrow> lead \<Rightarrow> lead list \<Rightarrow> 's run \<Rightarrow> 's run" where
  "merge_each api destination_lead [] st = st"
| "merge_each api destination_lead (source_lead # duplicates) st =
     merge_each api destination_lead duplicates
       \<lparr>store = api_post api (store st) (lead_id source_lead) (lead_id destination_lead),
        calls = calls st @ [Merge (lead_id source_lead) (lead_id destination_lead)]\<rparr>"

text \<open>\<open>confirmed\<close> is \<^verbatim>\<open>args.confirmed\<close>.\<close>

definition merge_lead :: "'s api \<Rightarrow> bool \<Rightarrow> lead \<Rightarrow> lead list \<Rightarrow> 's run \<Rightarrow> 's run" where
  "merge_lead api confirmed destination_lead duplicates st =
     (if \<not> confirmed then st else merge_each api destination_lead duplicates st)"

text \<open>The merge requests in a log.\<close>

fun is_merge :: "call \<Rightarrow> bool" where
  "is_merge (Merge s d) = True"
| "is_merge (Get q k) = False"

subsection \<open>The page loop of the script\<close>

text \<open>
  What the loop over a page carries: the run, \<^verbatim>\<open>leads_merged_this_page\<close>,
  \<^verbatim>\<open>total_leads_merged\<close> and \<^verbatim>\<open>duplicates_this_page\<close>.
\<close>

record 's page =
  state :: "'s run"
  leads_merged_this_page :: int
  total_leads_merged :: int
  duplicates_this_page :: "unicode set"

text \<open>The values the script gives them when a page has been fetched.\<close>

definition page_start :: "'s run \<Rightarrow> int \<Rightarrow> 's page" where
  "page_start st total_merged =
     \<lparr>state = st, leads_merged_this_page = 0, total_leads_merged = total_merged,
      duplicates_this_page = {}\<rparr>"

text \<open>
  The body of \<^verbatim>\<open>for idx, lead in enumerate(leads)\<close>; \<open>fld\<close> is \<^verbatim>\<open>args.field\<close>.
\<close>

definition visit ::
  "'s api \<Rightarrow> chartab \<Rightarrow> field \<Rightarrow> bool \<Rightarrow> lead \<Rightarrow> 's page \<Rightarrow> 's page option" where
  "visit api tab fld confirmed lead w =
     (if lead_id lead \<in> duplicates_this_page w then Some w
      else
        (case find_duplicates_for_lead api tab lead fld (state w) of
           None \<Rightarrow> None
         | Some (duplicates, st) \<Rightarrow>
             (let w1 = w\<lparr>state := st,
                        duplicates_this_page :=
                          duplicates_this_page w \<union> set (map lead_id duplicates)\<rparr>
              in if duplicates \<noteq> []
                 then Some (w1\<lparr>state := merge_lead api confirmed lead duplicates st,
                               leads_merged_this_page :=
                                 leads_merged_this_page w + (int (length duplicates) + 1),
                               total_leads_merged := total_leads_merged w + 1\<rparr>)
                 else Some w1)))"

fun visit_all ::
  "'s api \<Rightarrow> chartab \<Rightarrow> field \<Rightarrow> bool \<Rightarrow> lead list \<Rightarrow> 's page \<Rightarrow> 's page option" where
  "visit_all api tab fld confirmed [] w = Some w"
| "visit_all api tab fld confirmed (lead # leads) w =
     (case visit api tab fld confirmed lead w of
        None \<Rightarrow> None
      | Some w' \<Rightarrow> visit_all api tab fld confirmed leads w')"

text \<open>\<^verbatim>\<open>offset += max(0, len(leads) - leads_merged_this_page)\<close>.\<close>

definition next_offset :: "int \<Rightarrow> lead list \<Rightarrow> 's page \<Rightarrow> int" where
  "next_offset offset leads w =
     offset + max 0 (int (length leads) - leads_merged_this_page w)"

text \<open>
  The \<^verbatim>\<open>while has_more\<close> loop of \<^verbatim>\<open>__main__\<close>, from a given offset and total. The
  result is the last offset, \<^verbatim>\<open>total_leads_merged\<close> and the run.
\<close>

partial_function (option) walk ::
  "'s api \<Rightarrow> chartab \<Rightarrow> field \<Rightarrow> bool \<Rightarrow> int \<Rightarrow> int \<Rightarrow> 's run \<Rightarrow> (int \<times> int \<times> 's run) option" where
  "walk api tab fld confirmed offset total_merged st =
     (let resp = api_get api (store st) ''sort:date_created'' offset;
          leads = data resp
      in case visit_all api tab fld confirmed leads
                (page_start (st\<lparr>calls := calls st @ [Get ''sort:date_created'' offset]\<rparr>) total_merged) of
           None \<Rightarrow> None
         | Some w \<Rightarrow>
             if has_more resp
             then walk api tab fld confirmed (next_offset offset leads w)
                    (total_leads_merged w) (state w)
             else Some (next_offset offset leads w, total_leads_merged w, state w))"

definition main :: "'s api \<Rightarrow> chartab \<Rightarrow> field \<Rightarrow> bool \<Rightarrow> 's \<Rightarrow> (int \<times> int \<times> 's run) option" where
  "main api tab fld confirmed s = walk api tab fld confirmed 0 0 \<lparr>store = s, calls = []\<rparr>"

declare search_pages.simps [code]
declare walk.simps [code]

subsection \<open>What the store answered\<close>

text \<open>
  The leads in the answer to a request of the log, on a given store, and the leads
  returned between two moments of a run during which the store did not change.
\<close>

fun answered :: "'s api \<Rightarrow> 's \<Rightarrow> call \<Rightarrow> lead list" where
  "answered api s (Get query skip) = data (api_get api s query skip)"
| "answered api s (Merge source destination) = []"

definition returned :: "'s api \<Rightarrow> 's run \<Rightarrow> 's run \<Rightarrow> lead list" where
  "returned api st st' =
     concat (map (answered api (store st)) (drop (length (calls st)) (calls st')))"

text \<open>
  The search loop asks for a query at offset 0, then at the offset moved on by the
  length of each page: \<open>offset_from api s query offset k\<close> is the offset of the request
  made \<open>k\<close> requests after the one at \<open>offset\<close>, and \<open>nth_page\<close> the answer to the
  \<open>k\<close>-th request of a search.
\<close>

fun offset_from :: "'s api \<Rightarrow> 's \<Rightarrow> string \<Rightarrow> int \<Rightarrow> nat \<Rightarrow> int" where
  "offset_from api s query offset 0 = offset"
| "offset_from api s query offset (Suc k) =
     offset_from api s query
       (offset + int (length (data (api_get api s query offset)))) k"

definition nth_page :: "'s api \<Rightarrow> 's \<Rightarrow> string \<Rightarrow> nat \<Rightarrow> response" where
  "nth_page api s query k = api_get api s query (offset_from api s query 0 k)"

text \<open>
  The store answers a query in \<open>n + 1\<close> pages (the first \<open>n\<close> say \<^verbatim>\<open>has_more\<close>, the
  last does not), and the lead \<open>l\<close> is on one of them.
\<close>

definition answers_with :: "'s api \<Rightarrow> 's \<Rightarrow> string \<Rightarrow> nat \<Rightarrow> lead \<Rightarrow> bool" where
  "answers_with api s query n l =
     ((\<forall>k \<in> {..<n}. has_more (nth_page api s query k))
      \<and> \<not> has_more (nth_page api s query n)
      \<and> (\<exists>k \<in> {..n}. l \<in> set (data (nth_page api s query k))))"

text \<open>The test the search loop applies to a lead \<open>l\<close> of a page, as one predicate.\<close>

definition is_match :: "chartab \<Rightarrow> field \<Rightarrow> lead \<Rightarrow> unicode set \<Rightarrow> lead \<Rightarrow> bool" where
  "is_match tab comparator_field lead lead_elems l =
     (lead_id l \<noteq> lead_id lead \<and>
      (if comparator_field = Company
       then py_lower tab (py_strip tab (name lead)) = py_lower tab (py_strip tab (name l))
       else lead_elems \<inter> set (all_elements comparator_field l) \<noteq> {}))"

subsection \<open>An example store\<close>

text \<open>
  A small store for running the definitions: the leads it holds, in creation order.
  A search answers with the leads that a given predicate relates to the query, from
  position \<open>skip\<close> on, at most \<open>psize\<close> a page; a merge removes the source lead.
\<close>

definition page_of :: "nat \<Rightarrow> lead list \<Rightarrow> int \<Rightarrow> response" where
  "page_of psize ls skip =
     \<lparr>data = take psize (drop (nat skip) ls),
      total_results = int (length ls),
      has_more = (nat skip + psize < length ls)\<rparr>"

definition list_store :: "nat \<Rightarrow> (string \<Rightarrow> lead \<Rightarrow> bool) \<Rightarrow> (lead list) api" where
  "list_store psize matches =
     \<lparr>api_get = (\<lambda>db query skip. page_of psize (filter (matches query) db) skip),
      api_post = (\<lambda>db source destination. filter (\<lambda>l. lead_id l \<noteq> source) db)\<rparr>"

definition mk_lead :: "unicode \<Rightarrow> unicode \<Rightarrow> contact list \<Rightarrow> unicode list \<Rightarrow> lead" where
  "mk_lead i n cs os =
     \<lparr>lead_id = i, display_name = n, name = n, status_label = [], contacts = cs,
      opportunities = os\<rparr>"

text \<open>
  Two leads with the same company name up to case and a trailing blank; the younger one
  has an opportunity. The store of the examples answers every query with all its leads,
  one lead a page.
\<close>

definition acme_a :: lead where
  "acme_a = mk_lead (u ''lead_a'') (u ''Acme Inc'') [] []"

definition acme_b :: lead where
  "acme_b = mk_lead (u ''lead_b'') (u ''ACME INC '') [] [u ''oppo_1'']"

definition any_store :: "(lead list) api" where
  "any_store = list_store 1 (\<lambda>query l. True)"

definition acme_run :: "(lead list) run" where
  "acme_run = \<lparr>store = [acme_a, acme_b], calls = []\<rparr>"

text \<open>Two leads that share one e-mail address of the two that the second has.\<close>

definition lead_c :: lead where
  "lead_c = mk_lead (u ''lead_c'') (u ''C'') [\<lparr>emails = [u ''a@x.com''], phones = []\<rparr>] []"

definition lead_d :: lead where
  "lead_d = mk_lead (u ''lead_d'') (u ''D'')
     [\<lparr>emails = [u ''b@x.com''], phones = []\<rparr>, \<lparr>emails = [u ''a@x.com''], phones = []\<rparr>] []"

definition mail_run :: "(lead list) run" where
  "mail_run = \<lparr>store = [lead_c, lead_d], calls = []\<rparr>"

text \<open>
  A store of sixty leads with a page size of fifty. The first three share an e-mail
  address; the others have no contacts. The last function reads from a log the offsets
  at which the page loop of the script fetched its pages.
\<close>

definition lead_e :: lead where
  "lead_e = mk_lead (u ''lead_e'') (u ''E'')
     [\<lparr>emails = [u ''a@x.com''], phones = [u ''555'']\<rparr>] []"

definition plain :: "nat \<Rightarrow> lead" where
  "plain i = mk_lead [1000 + i] [2000 + i] [] []"

definition big_db :: "lead list" where
  "big_db = [lead_c, lead_d, lead_e] @ map plain [3..<60]"

definition big_store :: "(lead list) api" where
  "big_store = list_store 50 (\<lambda>query l. True)"

definition big_run :: "(lead list) run" where
  "big_run = \<lparr>store = big_db, calls = []\<rparr>"

fun listing_offsets :: "call list \<Rightarrow> int list" where
  "listing_offsets [] = []"
| "listing_offsets (Get query skip # cs) =
     (if query = ''sort:date_created'' then skip # listing_offsets cs
      else listing_offsets cs)"
| "listing_offsets (Merge source destination # cs) = listing_offsets cs"

text \<open>
  The page state after \<open>lead_c\<close> has been visited, with the confirmation flag set, at
  the start of a page on the two-lead store, and the page state after the first page of
  the sixty-lead store.
\<close>

definition mail_page :: "(lead list) page" where
  "mail_page =
     \<lparr>state = \<lparr>store = [lead_c],
               calls = [Get (build_query Email [u ''a@x.com'']) 0,
                        Get (build_query Email [u ''a@x.com'']) 1,
                        Merge (u ''lead_d'') (u ''lead_c'')]\<rparr>,
      leads_merged_this_page = 2, total_leads_merged = 1,
      duplicates_this_page = {u ''lead_d''}\<rparr>"

definition big_page :: "(lead list) page" where
  "big_page =
     \<lparr>state = \<lparr>store = lead_c # map plain [3..<60],
               calls = [Get (build_query Email [u ''a@x.com'']) 0,
                        Get (build_query Email [u ''a@x.com'']) 50,
                        Merge (u ''lead_d'') (u ''lead_c''),
                        Merge (u ''lead_e'') (u ''lead_c'')]\<rparr>,
      leads_merged_this_page = 3, total_leads_merged = 1,
      duplicates_this_page = {u ''lead_d'', u ''lead_e''}\<rparr>"

section \<open>Properties\<close>

subsection \<open>find\_duplicates\_for\_lead\<close>

text \<open>The loop over a page appends the leads of the page that pass the test, in order.\<close>

lemma scan_filter:
  "scan tab f lead le leads dups = dups @ filter (is_match tab f lead le) leads"
proof (cases "f = Company")
  case True
  then show ?thesis
    by (induction leads arbitrary: dups) (simp_all add: is_match_def)
next
  case False
  then show ?thesis
    by (induction leads arbitrary: dups) (simp_all add: is_match_def Let_def)
qed

lemma search_pages_Some:
  assumes "search_pages api tab f lead le q off dups st = Some r"
  shows "store (snd r) = store st \<and>
         (\<exists>new. calls (snd r) = calls st @ new \<and>
            fst r = dups @ filter (is_match tab f lead le) (concat (map (answered api (store st)) new)))"
  using assms
proof (induction api tab f lead le q off dups st r
    rule: search_pages.raw_induct[rotated 1, consumes 1])
  case (1 sp api tab f lead le q off dups st r)
  show ?case
  proof (cases "has_more (api_get api (store st) q off)")
    case True
    with 1(2) have rec: "sp api tab f lead le q
        (off + int (length (data (api_get api (store st) q off))))
        (scan tab f lead le (data (api_get api (store st) q off)) dups)
        (st\<lparr>calls := calls st @ [Get q off]\<rparr>) = Some r"
      by (simp add: Let_def)
    from 1(1)[OF rec] obtain new where
      s: "store (snd r) = store st" and
      c: "calls (snd r) = (calls st @ [Get q off]) @ new" and
      d: "fst r = scan tab f lead le (data (api_get api (store st) q off)) dups
            @ filter (is_match tab f lead le) (concat (map (answered api (store st)) new))"
      by auto
    show ?thesis
      using s c d by (intro conjI exI[of _ "Get q off # new"]) (simp_all add: scan_filter)
  next
    case False
    with 1(2) have "r = (scan tab f lead le (data (api_get api (store st) q off)) dups,
        st\<lparr>calls := calls st @ [Get q off]\<rparr>)"
      by (simp add: Let_def)
    then show ?thesis
      by (intro conjI exI[of _ "[Get q off]"]) (simp_all add: scan_filter)
  qed
qed

lemma find_duplicates_filter:
  assumes "find_duplicates_for_lead api tab lead f st = Some (duplicates, st')"
  shows "store st' = store st"
    and "take (length (calls st)) (calls st') = calls st"
    and "duplicates =
      filter (is_match tab f lead (if f = Company then {} else set (all_elements f lead)))
        (returned api st st')"
proof -
  let ?vals = "if f = Company then [name lead] else all_elements f lead"
  let ?le = "if f = Company then {} else set (all_elements f lead)"
  have "store st' = store st \<and> take (length (calls st)) (calls st') = calls st \<and>
        duplicates = filter (is_match tab f lead ?le) (returned api st st')"
  proof (cases "?vals = []")
    case True
    with assms have "duplicates = []" "st' = st"
      by (simp_all add: find_duplicates_for_lead_def Let_def)
    then show ?thesis by (simp add: returned_def)
  next
    case False
    with assms have "search_pages api tab f lead ?le (build_query f ?vals) 0 [] st
        = Some (duplicates, st')"
      by (simp add: find_duplicates_for_lead_def Let_def)
    from search_pages_Some[OF this] show ?thesis
      by (auto simp: returned_def)
  qed
  then show "store st' = store st"
    and "take (length (calls st)) (calls st') = calls st"
    and "duplicates = filter (is_match tab f lead ?le) (returned api st st')"
    by simp_all
qed

text \<open>
  Claim C4. Comparison by company: when \<^verbatim>\<open>find_duplicates_for_lead\<close> returns, a lead
  is among the returned duplicates if and only if the store returned it in answer to
  one of the requests of this call, its id differs from the input lead's id, and its
  company name after \<^verbatim>\<open>strip().lower()\<close> (trimmed of white space, then lower-cased)
  equals the input lead's company name after \<^verbatim>\<open>strip().lower()\<close>.
\<close>

theorem company_duplicates:
  assumes "find_duplicates_for_lead api tab lead Company st = Some (duplicates, st')"
  shows "l \<in> set duplicates \<longleftrightarrow>
           l \<in> set (returned api st st') \<and> lead_id l \<noteq> lead_id lead \<and>
           py_lower tab (py_strip tab (name l)) = py_lower tab (py_strip tab (name lead))"
  using find_duplicates_filter(3)[OF assms] by (auto simp: is_match_def)

theorem company_duplicates_witness:
  "find_duplicates_for_lead any_store ascii_tab acme_a Company acme_run
     = Some ([acme_b],
         acme_run\<lparr>calls := [Get (build_query Company [u ''Acme Inc'']) 0,
                             Get (build_query Company [u ''Acme Inc'']) 1]\<rparr>)
   \<and> ((acme_b \<in> set [acme_b]) =
        (acme_b \<in> set (returned any_store acme_run
            (acme_run\<lparr>calls := [Get (build_query Company [u ''Acme Inc'']) 0,
                                Get (build_query Company [u ''Acme Inc'']) 1]\<rparr>))
         \<and> lead_id acme_b \<noteq> lead_id acme_a
         \<and> py_lower ascii_tab (py_strip ascii_tab (name acme_b))
             = py_lower ascii_tab (py_strip ascii_tab (name acme_a))))"
proof -
  have run: "find_duplicates_for_lead any_store ascii_tab acme_a Company acme_run
     = Some ([acme_b],
         acme_run\<lparr>calls := [Get (build_query Company [u ''Acme Inc'']) 0,
                             Get (build_query Company [u ''Acme Inc'']) 1]\<rparr>)"
    by code_simp
  from company_duplicates [OF run, of acme_b] run show ?thesis
    by simp
qed

text \<open>
  Claim C5. Comparison by e-mail or by phone: when \<^verbatim>\<open>find_duplicates_for_lead\<close>
  returns, a candidate lead is among the returned duplicates if and only if the store
  returned it in answer to one of the requests of this call, its id differs from the
  input lead's id, and the set of element values across its contacts and the set of
  element values across the input lead's contacts have an element in common: one shared
  element suffices.
\<close>

theorem element_duplicates:
  assumes "find_duplicates_for_lead api tab lead f st = Some (duplicates, st')"
    and "f = Email \<or> f = Phone"
  shows "l \<in> set duplicates \<longleftrightarrow>
           l \<in> set (returned api st st') \<and> lead_id l \<noteq> lead_id lead \<and>
           set (all_elements f l) \<inter> set (all_elements f lead) \<noteq> {}"
  using find_duplicates_filter(3)[OF assms(1)] assms(2) by (auto simp: is_match_def)

theorem element_duplicates_witness:
  "find_duplicates_for_lead any_store ascii_tab lead_c Email mail_run
     = Some ([lead_d],
         mail_run\<lparr>calls := [Get (build_query Email [u ''a@x.com'']) 0,
                             Get (build_query Email [u ''a@x.com'']) 1]\<rparr>)
   \<and> (Email = Email \<or> Email = Phone)
   \<and> ((lead_d \<in> set [lead_d]) =
        (lead_d \<in> set (returned any_store mail_run
            (mail_run\<lparr>calls := [Get (build_query Email [u ''a@x.com'']) 0,
                                Get (build_query Email [u ''a@x.com'']) 1]\<rparr>))
         \<and> lead_id lead_d \<noteq> lead_id lead_c
         \<and> set (all_elements Email lead_d) \<inter> set (all_elements Email lead_c) \<noteq> {}))"
proof -
  have run: "find_duplicates_for_lead any_store ascii_tab lead_c Email mail_run
     = Some ([lead_d],
         mail_run\<lparr>calls := [Get (build_query Email [u ''a@x.com'']) 0,
                             Get (build_query Email [u ''a@x.com'']) 1]\<rparr>)"
    by code_simp
  have fld: "Email = Email \<or> Email = Phone"
    by simp
  from element_duplicates [OF run fld, of lead_d] run fld show ?thesis
    by simp
qed

text \<open>
  When the store's answer to the query ends after \<open>n + 1\<close> pages, the search loop
  returns: it has sent these \<open>n + 1\<close> requests and kept the leads of the pages that
  pass the test.
\<close>

lemma search_pages_result:
  assumes "\<forall>k<n. has_more (api_get api (store st) q (offset_from api (store st) q off k))"
    and "\<not> has_more (api_get api (store st) q (offset_from api (store st) q off n))"
  shows "search_pages api tab f lead le q off dups st =
     Some (dups @ filter (is_match tab f lead le)
              (concat (map (\<lambda>k. data (api_get api (store st) q (offset_from api (store st) q off k))) [0..<Suc n])),
           st\<lparr>calls := calls st @ map (\<lambda>k. Get q (offset_from api (store st) q off k)) [0..<Suc n]\<rparr>)"
  using assms
proof (induction n arbitrary: off dups st)
  case 0
  then show ?case
    by (subst search_pages.simps) (simp add: Let_def scan_filter)
next
  case (Suc n)
  let ?resp = "api_get api (store st) q off"
  let ?off' = "off + int (length (data ?resp))"
  let ?st' = "st\<lparr>calls := calls st @ [Get q off]\<rparr>"
  from Suc.prems(1) have hm: "has_more ?resp"
    by (metis offset_from.simps(1) zero_less_Suc)
  have a: "\<forall>k<n. has_more (api_get api (store ?st') q (offset_from api (store ?st') q ?off' k))"
    using Suc.prems(1) by (auto dest: spec[of _ "Suc k" for k])
  have b: "\<not> has_more (api_get api (store ?st') q (offset_from api (store ?st') q ?off' n))"
    using Suc.prems(2) by simp
  have idx: "[0..<Suc (Suc n)] = 0 # map Suc [0..<Suc n]"
    unfolding map_Suc_upt by (rule upt_conv_Cons) simp
  show ?case
    apply (subst search_pages.simps)
    apply (simp only: Let_def hm if_True)
    apply (subst Suc.IH[OF a b])
    apply (simp only: idx)
    apply (simp add: scan_filter comp_def)
    done
qed

lemma find_company_includes:
  assumes ids: "lead_id l1 \<noteq> lead_id l2"
    and names: "py_lower tab (py_strip tab (name l1)) = py_lower tab (py_strip tab (name l2))"
    and ans: "answers_with api (store st) (build_query Company [name l1]) n l2"
  shows "\<exists>d s. find_duplicates_for_lead api tab l1 Company st = Some (d, s) \<and> l2 \<in> set d"
proof -
  let ?q = "build_query Company [name l1]"
  from ans have more: "\<forall>k<n. has_more (api_get api (store st) ?q (offset_from api (store st) ?q 0 k))"
    and last: "\<not> has_more (api_get api (store st) ?q (offset_from api (store st) ?q 0 n))"
    and "\<exists>k\<le>n. l2 \<in> set (data (api_get api (store st) ?q (offset_from api (store st) ?q 0 k)))"
    by (auto simp: answers_with_def nth_page_def)
  then obtain k where k: "k \<le> n"
    "l2 \<in> set (data (api_get api (store st) ?q (offset_from api (store st) ?q 0 k)))"
    by blast
  have m: "is_match tab Company l1 {} l2"
    using ids names by (auto simp: is_match_def)
  have "find_duplicates_for_lead api tab l1 Company st =
      search_pages api tab Company l1 {} ?q 0 [] st"
    by (simp add: find_duplicates_for_lead_def)
  also note search_pages_result[OF more last, of tab Company l1 "{}" "[]"]
  finally have r: "find_duplicates_for_lead api tab l1 Company st =
      Some ([] @ filter (is_match tab Company l1 {})
         (concat (map (\<lambda>k. data (api_get api (store st) ?q (offset_from api (store st) ?q 0 k))) [0..<Suc n])),
         st\<lparr>calls := calls st @ map (\<lambda>k. Get ?q (offset_from api (store st) ?q 0 k)) [0..<Suc n]\<rparr>)" .
  have "l2 \<in> set (filter (is_match tab Company l1 {})
         (concat (map (\<lambda>k. data (api_get api (store st) ?q (offset_from api (store st) ?q 0 k))) [0..<Suc n])))"
  proof -
    from k(1) have "k \<in> set [0..<Suc n]" by (simp del: upt_Suc)
    with k(2) have "l2 \<in> set (concat (map (\<lambda>k. data (api_get api (store st) ?q (offset_from api (store st) ?q 0 k))) [0..<Suc n]))"
      unfolding set_concat set_map by blast
    with m show ?thesis by simp
  qed
  with r show ?thesis by (simp del: upt_Suc)
qed

text \<open>
  Claim C9. Symmetry of the comparison by company. Let \<open>l1\<close> and \<open>l2\<close> be two leads
  (two ids) whose company names are equal after \<^verbatim>\<open>strip().lower()\<close>, on a store that
  returns all leads matching the query it is sent: its answer to the query issued for
  \<open>l1\<close> ends after finitely many pages and has \<open>l2\<close> on one of them, and its answer to
  the query issued for \<open>l2\<close> likewise has \<open>l1\<close>. Then \<^verbatim>\<open>find_duplicates_for_lead\<close>
  returns for \<open>l1\<close> with \<open>l2\<close> among the duplicates, and returns for \<open>l2\<close> with \<open>l1\<close>
  among the duplicates.
\<close>

theorem company_symmetry:
  assumes "lead_id l1 \<noteq> lead_id l2"
    and "py_lower tab (py_strip tab (name l1)) = py_lower tab (py_strip tab (name l2))"
    and "answers_with api (store st) (build_query Company [name l1]) n1 l2"
    and "answers_with api (store st) (build_query Company [name l2]) n2 l1"
  shows "\<exists>d1 s1 d2 s2.
           find_duplicates_for_lead api tab l1 Company st = Some (d1, s1) \<and> l2 \<in> set d1 \<and>
           find_duplicates_for_lead api tab l2 Company st = Some (d2, s2) \<and> l1 \<in> set d2"
  using find_company_includes[OF assms(1,2,3)]
    find_company_includes[OF assms(1)[symmetric] assms(2)[symmetric] assms(4)]
  by blast

theorem company_symmetry_witness:
  "lead_id acme_a \<noteq> lead_id acme_b
   \<and> py_lower ascii_tab (py_strip ascii_tab (name acme_a))
       = py_lower ascii_tab (py_strip ascii_tab (name acme_b))
   \<and> answers_with any_store (store acme_run) (build_query Company [name acme_a]) 1 acme_b
   \<and> answers_with any_store (store acme_run) (build_query Company [name acme_b]) 1 acme_a
   \<and> (\<exists>d1 s1 d2 s2.
         find_duplicates_for_lead any_store ascii_tab acme_a Company acme_run = Some (d1, s1)
         \<and> acme_b \<in> set d1
         \<and> find_duplicates_for_lead any_store ascii_tab acme_b Company acme_run = Some (d2, s2)
         \<and> acme_a \<in> set d2)"
proof -
  have h1: "lead_id acme_a \<noteq> lead_id acme_b"
    by code_simp
  have h2: "py_lower ascii_tab (py_strip ascii_tab (name acme_a))
       = py_lower ascii_tab (py_strip ascii_tab (name acme_b))"
    by code_simp
  have h3: "answers_with any_store (store acme_run) (build_query Company [name acme_a]) 1 acme_b"
    by code_simp
  have h4: "answers_with any_store (store acme_run) (build_query Company [name acme_b]) 1 acme_a"
    by code_simp
  from company_symmetry [OF h1 h2 h3 h4] h1 h2 h3 h4 show ?thesis
    by blast
qed

text \<open>A search sends no merge request.\<close>

lemma search_pages_no_merge:
  assumes "search_pages api tab f lead le q off dups st = Some r"
  shows "filter is_merge (calls (snd r)) = filter is_merge (calls st)"
  using assms
proof (induction api tab f lead le q off dups st r
    rule: search_pages.raw_induct[rotated 1, consumes 1])
  case (1 sp api tab f lead le q off dups st r)
  show ?case
  proof (cases "has_more (api_get api (store st) q off)")
    case True
    with 1(2) have "sp api tab f lead le q
        (off + int (length (data (api_get api (store st) q off))))
        (scan tab f lead le (data (api_get api (store st) q off)) dups)
        (st\<lparr>calls := calls st @ [Get q off]\<rparr>) = Some r"
      by (simp add: Let_def)
    from 1(1)[OF this] show ?thesis by simp
  next
    case False
    with 1(2) show ?thesis by (auto simp: Let_def)
  qed
qed

lemma find_duplicates_no_merge:
  assumes "find_duplicates_for_lead api tab lead f st = Some (duplicates, st')"
  shows "filter is_merge (calls st') = filter is_merge (calls st)"
proof (cases "(if f = Company then [name lead] else all_elements f lead) = []")
  case True
  with assms show ?thesis
    by (simp add: find_duplicates_for_lead_def Let_def)
next
  case False
  with assms have "search_pages api tab f lead
      (if f = Company then {} else set (all_elements f lead))
      (build_query f (if f = Company then [name lead] else all_elements f lead)) 0 [] st
        = Some (duplicates, st')"
    by (simp add: find_duplicates_for_lead_def Let_def)
  from search_pages_no_merge[OF this] show ?thesis by simp
qed

subsection \<open>merge\_lead\<close>

lemma calls_merge_each:
  "calls (merge_each api d dups st) =
     calls st @ map (\<lambda>s. Merge (lead_id s) (lead_id d)) dups"
  by (induction dups arbitrary: st) simp_all

text \<open>
  Claim C3. Dry run: when the confirmation flag is unset, \<^verbatim>\<open>merge_lead\<close> returns at
  once, for every destination lead and every list of duplicates: the store is the one it
  was given, and the log of requests is unchanged, so no request (and in particular no
  merge request) was sent.
\<close>

theorem merge_lead_dry_run:
  "merge_lead api False destination_lead duplicates st = st"
  by (simp add: merge_lead_def)

text \<open>
  Claim C7. With the confirmation flag set, the requests \<^verbatim>\<open>merge_lead\<close> sends are
  exactly one merge request for each lead of the duplicates list, in list order, each
  with that duplicate's id as source and the destination lead's id as destination; it
  sends nothing else.
\<close>

theorem merge_lead_confirmed_calls:
  "calls (merge_lead api True destination_lead duplicates st) =
     calls st @ map (\<lambda>source_lead. Merge (lead_id source_lead) (lead_id destination_lead)) duplicates"
  by (simp add: merge_lead_def calls_merge_each)

subsection \<open>The page loop\<close>

lemma merges_merge_lead:
  "length (filter is_merge (calls (merge_lead api True d dups st)))
     = length (filter is_merge (calls st)) + length dups"
  by (simp add: merge_lead_def calls_merge_each comp_def)

lemma visit_skip:
  "lead_id lead \<in> duplicates_this_page w \<Longrightarrow> visit api tab fld confirmed lead w = Some w"
  by (simp add: visit_def)

lemma visit_found:
  assumes "lead_id lead \<notin> duplicates_this_page w"
    and "find_duplicates_for_lead api tab lead fld (state w) = Some (duplicates, st')"
  shows "visit api tab fld confirmed lead w =
     Some (if duplicates \<noteq> []
           then w\<lparr>state := merge_lead api confirmed lead duplicates st',
                  leads_merged_this_page :=
                    leads_merged_this_page w + (int (length duplicates) + 1),
                  total_leads_merged := total_leads_merged w + 1,
                  duplicates_this_page :=
                    duplicates_this_page w \<union> lead_id ` set duplicates\<rparr>
           else w\<lparr>state := st',
                  duplicates_this_page :=
                    duplicates_this_page w \<union> lead_id ` set duplicates\<rparr>)"
  using assms by (simp add: visit_def Let_def)

lemma visit_mono:
  assumes "visit api tab fld confirmed lead w = Some w'"
  shows "duplicates_this_page w \<subseteq> duplicates_this_page w'"
proof (cases "lead_id lead \<in> duplicates_this_page w")
  case True
  with assms show ?thesis by (simp add: visit_skip)
next
  case False
  with assms obtain duplicates st' where
    f: "find_duplicates_for_lead api tab lead fld (state w) = Some (duplicates, st')"
    by (auto simp: visit_def split: option.splits)
  from assms visit_found[OF False f, of confirmed] show ?thesis
    by (auto split: if_splits)
qed

lemma skip_anywhere:
  assumes "lead_id lead \<in> duplicates_this_page w"
  shows "visit_all api tab fld confirmed (pre @ lead # rest) w
           = visit_all api tab fld confirmed (pre @ rest) w"
  using assms
proof (induction pre arbitrary: w)
  case Nil
  then show ?case by (simp add: visit_skip)
next
  case (Cons x pre)
  show ?case
  proof (cases "visit api tab fld confirmed x w")
    case None
    then show ?thesis by simp
  next
    case (Some w')
    from visit_mono[OF Some] Cons.prems have "lead_id lead \<in> duplicates_this_page w'"
      by blast
    from Cons.IH[OF this] Some show ?thesis by simp
  qed
qed

text \<open>
  Claim C6. Within a page, a lead whose id is already in \<^verbatim>\<open>duplicates_this_page\<close> is
  skipped: its visit returns the state it was given (the same store, the same log of
  requests, the same counters), so neither a search nor a merge request was sent for
  it, and the page runs as if the lead were not on it, wherever on the page it stands.
  The set is empty in the state every page starts from, and every round of the
  \<^verbatim>\<open>while\<close> loop starts a page from that state. When a lead that is not in the set
  is visited and its search returns, the ids of all the duplicates found are in the set
  with which the rest of the page is visited.
\<close>

theorem subsumed_lead_skipped:
  "(lead_id lead \<in> duplicates_this_page w \<longrightarrow>
      visit api tab fld confirmed lead w = Some w
      \<and> visit_all api tab fld confirmed (pre @ lead # rest) w
          = visit_all api tab fld confirmed (pre @ rest) w)
   \<and> duplicates_this_page (page_start st total_merged) = {}
   \<and> walk api tab fld confirmed offset total_merged st =
       (case visit_all api tab fld confirmed
               (data (api_get api (store st) ''sort:date_created'' offset))
               (page_start (st\<lparr>calls := calls st @ [Get ''sort:date_created'' offset]\<rparr>)
                  total_merged) of
          None \<Rightarrow> None
        | Some w' \<Rightarrow>
            if has_more (api_get api (store st) ''sort:date_created'' offset)
            then walk api tab fld confirmed
                   (next_offset offset
                      (data (api_get api (store st) ''sort:date_created'' offset)) w')
                   (total_leads_merged w') (state w')
            else Some (next_offset offset
                         (data (api_get api (store st) ''sort:date_created'' offset)) w',
                       total_leads_merged w', state w'))
   \<and> (lead_id first \<notin> duplicates_this_page w0 \<longrightarrow>
      find_duplicates_for_lead api tab first fld (state w0) = Some (duplicates, st') \<longrightarrow>
      (\<exists>w'. visit api tab fld confirmed first w0 = Some w'
          \<and> duplicates_this_page w' = duplicates_this_page w0 \<union> lead_id ` set duplicates
          \<and> visit_all api tab fld confirmed (first # rest) w0
              = visit_all api tab fld confirmed rest w'))"
proof (intro conjI impI)
  assume "lead_id lead \<in> duplicates_this_page w"
  then show "visit api tab fld confirmed lead w = Some w"
    and "visit_all api tab fld confirmed (pre @ lead # rest) w
          = visit_all api tab fld confirmed (pre @ rest) w"
    by (rule visit_skip, rule skip_anywhere)
next
  show "duplicates_this_page (page_start st total_merged) = {}"
    by (simp add: page_start_def)
next
  show "walk api tab fld confirmed offset total_merged st =
       (case visit_all api tab fld confirmed
               (data (api_get api (store st) ''sort:date_created'' offset))
               (page_start (st\<lparr>calls := calls st @ [Get ''sort:date_created'' offset]\<rparr>)
                  total_merged) of
          None \<Rightarrow> None
        | Some w' \<Rightarrow>
            if has_more (api_get api (store st) ''sort:date_created'' offset)
            then walk api tab fld confirmed
                   (next_offset offset
                      (data (api_get api (store st) ''sort:date_created'' offset)) w')
                   (total_leads_merged w') (state w')
            else Some (next_offset offset
                         (data (api_get api (store st) ''sort:date_created'' offset)) w',
                       total_leads_merged w', state w'))"
    by (subst walk.simps) (simp only: Let_def)
next
  assume n: "lead_id first \<notin> duplicates_this_page w0"
    and f: "find_duplicates_for_lead api tab first fld (state w0) = Some (duplicates, st')"
  from visit_found[OF n f, of confirmed]
  show "\<exists>w'. visit api tab fld confirmed first w0 = Some w'
          \<and> duplicates_this_page w' = duplicates_this_page w0 \<union> lead_id ` set duplicates
          \<and> visit_all api tab fld confirmed (first # rest) w0
              = visit_all api tab fld confirmed rest w'"
    by (cases "duplicates = []") simp_all
qed


theorem subsumed_lead_skipped_witness:
  "lead_id lead_d \<in> duplicates_this_page mail_page
   \<and> visit any_store ascii_tab Email True lead_d mail_page = Some mail_page
   \<and> visit_all any_store ascii_tab Email True ([] @ lead_d # []) mail_page
       = visit_all any_store ascii_tab Email True ([] @ []) mail_page
   \<and> lead_id lead_c \<notin> duplicates_this_page (page_start mail_run 0)
   \<and> find_duplicates_for_lead any_store ascii_tab lead_c Email (state (page_start mail_run 0))
       = Some ([lead_d],
           mail_run\<lparr>calls := [Get (build_query Email [u ''a@x.com'']) 0,
                               Get (build_query Email [u ''a@x.com'']) 1]\<rparr>)
   \<and> (\<exists>w'. visit any_store ascii_tab Email True lead_c (page_start mail_run 0) = Some w'
          \<and> duplicates_this_page w'
              = duplicates_this_page (page_start mail_run 0) \<union> lead_id ` set [lead_d]
          \<and> visit_all any_store ascii_tab Email True (lead_c # []) (page_start mail_run 0)
              = visit_all any_store ascii_tab Email True [] w')"
proof -
  have h1: "lead_id lead_d \<in> duplicates_this_page mail_page"
    by code_simp
  have h2: "lead_id lead_c \<notin> duplicates_this_page (page_start mail_run 0)"
    by code_simp
  have h3: "find_duplicates_for_lead any_store ascii_tab lead_c Email (state (page_start mail_run 0))
       = Some ([lead_d],
           mail_run\<lparr>calls := [Get (build_query Email [u ''a@x.com'']) 0,
                               Get (build_query Email [u ''a@x.com'']) 1]\<rparr>)"
    by code_simp
  from subsumed_lead_skipped [where lead = lead_d and w = mail_page and api = any_store
      and tab = ascii_tab and fld = Email and confirmed = True and pre = "[]" and rest = "[]"
      and first = lead_c and ?w0.0 = "page_start mail_run 0" and duplicates = "[lead_d]"
      and st' = "mail_run\<lparr>calls := [Get (build_query Email [u ''a@x.com'']) 0,
                               Get (build_query Email [u ''a@x.com'']) 1]\<rparr>"]
    h1 h2 h3
  show ?thesis by blast
qed

text \<open>
  Claim C10. The count of merged leads does not look at the confirmation flag. When a
  lead that is not skipped has duplicates, \<^verbatim>\<open>leads_merged_this_page\<close> grows by the
  number of duplicates plus one, whatever the flag, and the offset moves on by
  \<^verbatim>\<open>max(0, len(leads) - leads_merged_this_page)\<close>; in a dry run this happens although
  the store is the one it was and no merge request was sent.
\<close>

theorem merged_count_ignores_confirmation:
  assumes "lead_id lead \<notin> duplicates_this_page w"
    and "find_duplicates_for_lead api tab lead fld (state w) = Some (duplicates, st')"
    and "duplicates \<noteq> []"
  shows "\<exists>w'. visit api tab fld confirmed lead w = Some w'
           \<and> leads_merged_this_page w'
               = leads_merged_this_page w + (int (length duplicates) + 1)
           \<and> next_offset offset leads w'
               = offset + max 0 (int (length leads)
                   - (leads_merged_this_page w + (int (length duplicates) + 1)))
           \<and> (\<not> confirmed \<longrightarrow>
                store (state w') = store (state w)
                \<and> filter is_merge (calls (state w')) = filter is_merge (calls (state w)))"
  using visit_found[OF assms(1,2), of confirmed] assms(3)
    find_duplicates_filter(1)[OF assms(2)] find_duplicates_no_merge[OF assms(2)]
  by (auto simp: next_offset_def merge_lead_def)

theorem merged_count_ignores_confirmation_witness:
  "lead_id lead_c \<notin> duplicates_this_page (page_start big_run 0)
   \<and> find_duplicates_for_lead big_store ascii_tab lead_c Email (state (page_start big_run 0))
       = Some ([lead_d, lead_e],
           big_run\<lparr>calls := [Get (build_query Email [u ''a@x.com'']) 0,
                              Get (build_query Email [u ''a@x.com'']) 50]\<rparr>)
   \<and> [lead_d, lead_e] \<noteq> []
   \<and> (\<exists>w'. visit big_store ascii_tab Email False lead_c (page_start big_run 0) = Some w'
          \<and> leads_merged_this_page w' = 0 + (int (length [lead_d, lead_e]) + 1)
          \<and> next_offset 0 (take 50 big_db) w' = 0 + max 0 (50 - (0 + (2 + 1)))
          \<and> store (state w') = big_db
          \<and> filter is_merge (calls (state w')) = [])"
proof -
  have h1: "lead_id lead_c \<notin> duplicates_this_page (page_start big_run 0)"
    by code_simp
  have h2: "find_duplicates_for_lead big_store ascii_tab lead_c Email (state (page_start big_run 0))
       = Some ([lead_d, lead_e],
           big_run\<lparr>calls := [Get (build_query Email [u ''a@x.com'']) 0,
                              Get (build_query Email [u ''a@x.com'']) 50]\<rparr>)"
    by code_simp
  have h3: "[lead_d, lead_e] \<noteq> []"
    by simp
  have len: "length (take 50 big_db) = 50"
    by code_simp
  from merged_count_ignores_confirmation [OF h1 h2 h3, of False 0 "take 50 big_db"]
  obtain w' where w: "visit big_store ascii_tab Email False lead_c (page_start big_run 0) = Some w'"
    "leads_merged_this_page w'
       = leads_merged_this_page (page_start big_run 0) + (int (length [lead_d, lead_e]) + 1)"
    "next_offset 0 (take 50 big_db) w'
       = 0 + max 0 (int (length (take 50 big_db))
           - (leads_merged_this_page (page_start big_run 0) + (int (length [lead_d, lead_e]) + 1)))"
    "store (state w') = store (state (page_start big_run 0))"
    "filter is_merge (calls (state w')) = filter is_merge (calls (state (page_start big_run 0)))"
    by blast
  have "leads_merged_this_page w' = 0 + (int (length [lead_d, lead_e]) + 1)"
    using w(2) by (simp add: page_start_def)
  moreover have "next_offset 0 (take 50 big_db) w' = 0 + max 0 (50 - (0 + (2 + 1)))"
    using w(3) len by (simp add: page_start_def)
  moreover have "store (state w') = big_db"
    using w(4) by (simp add: page_start_def big_run_def)
  moreover have "filter is_merge (calls (state w')) = []"
    using w(5) by (simp add: page_start_def big_run_def)
  ultimately show ?thesis
    using h1 h2 h3 w(1) by blast
qed

text \<open>
  With the confirmation flag set, a visit changes the count of merged leads by as much
  as the number of merge requests in the log plus \<^verbatim>\<open>total_leads_merged\<close>.
\<close>

lemma visit_count:
  assumes "visit api tab fld True lead w = Some w'"
  shows "leads_merged_this_page w' - int (length (filter is_merge (calls (state w'))))
            - total_leads_merged w'
         = leads_merged_this_page w - int (length (filter is_merge (calls (state w))))
            - total_leads_merged w"
proof (cases "lead_id lead \<in> duplicates_this_page w")
  case True
  with assms show ?thesis by (simp add: visit_skip)
next
  case False
  with assms obtain duplicates st' where
    f: "find_duplicates_for_lead api tab lead fld (state w) = Some (duplicates, st')"
    by (auto simp: visit_def split: option.splits)
  from assms visit_found[OF False f, of True] find_duplicates_no_merge[OF f]
    merges_merge_lead[of api lead duplicates st']
  show ?thesis
    by (auto split: if_splits)
qed

lemma visit_all_count:
  assumes "visit_all api tab fld True leads w = Some w'"
  shows "leads_merged_this_page w' - int (length (filter is_merge (calls (state w'))))
            - total_leads_merged w'
         = leads_merged_this_page w - int (length (filter is_merge (calls (state w))))
            - total_leads_merged w"
  using assms
proof (induction leads arbitrary: w)
  case Nil
  then show ?case by simp
next
  case (Cons x leads)
  then obtain w1 where v: "visit api tab fld True x w = Some w1"
    and r: "visit_all api tab fld True leads w1 = Some w'"
    by (auto split: option.splits)
  from Cons.IH[OF r] visit_count[OF v] show ?case by simp
qed


text \<open>
  Claim C1, as amended. With the confirmation flag set, the count of merged leads of a
  page is the number of merge requests sent during the page (the duplicates removed)
  plus the number of leads that were merged into (the destinations): the surviving
  destination is counted. So a page of 50 leads with one destination and two removed
  duplicates moves the offset on by \<open>50 - 3\<close>.
\<close>

theorem offset_counts_destination:
  assumes "visit_all api tab fld True leads (page_start st total_merged) = Some w"
    and "length (filter is_merge (calls (state w)))
           = length (filter is_merge (calls st)) + removed"
    and "total_leads_merged w = total_merged + destinations"
  shows "leads_merged_this_page w = int removed + destinations
         \<and> next_offset offset leads w
             = offset + max 0 (int (length leads) - (int removed + destinations))"
  using visit_all_count[OF assms(1)] assms(2,3)
  by (simp add: page_start_def next_offset_def)

theorem offset_counts_destination_witness:
  "visit_all big_store ascii_tab Email True (take 50 big_db) (page_start big_run 0)
     = Some big_page
   \<and> length (take 50 big_db) = 50
   \<and> length (filter is_merge (calls (state big_page)))
       = length (filter is_merge (calls big_run)) + 2
   \<and> total_leads_merged big_page = 0 + 1
   \<and> leads_merged_this_page big_page = int 2 + 1
   \<and> next_offset 0 (take 50 big_db) big_page = 0 + (50 - 3)"
proof -
  have h1: "visit_all big_store ascii_tab Email True (take 50 big_db) (page_start big_run 0)
     = Some big_page"
    by code_simp
  have h2: "length (filter is_merge (calls (state big_page)))
       = length (filter is_merge (calls big_run)) + 2"
    by code_simp
  have h3: "total_leads_merged big_page = 0 + 1"
    by code_simp
  have len: "length (take 50 big_db) = 50"
    by code_simp
  from offset_counts_destination [OF h1 h2 h3, of 0] len
  have "leads_merged_this_page big_page = int 2 + 1"
    and "next_offset 0 (take 50 big_db) big_page = 0 + (50 - 3)"
    by simp_all
  with h1 h2 h3 len show ?thesis by blast
qed

text \<open>
  The claim as the specification states it, an advance by \<open>50 - 2\<close>, fails on the
  sixty-lead store: the first page has 50 leads, \<open>lead_d\<close> and \<open>lead_e\<close> are merged into
  \<open>lead_c\<close> and leave the store, and the script fetches its second page at offset 47.
\<close>

theorem offset_excludes_destination_counterexample:
  "length (data (api_get big_store big_db ''sort:date_created'' 0)) = 50
   \<and> map_option (\<lambda>r. (listing_offsets (calls (snd (snd r))),
                       filter is_merge (calls (snd (snd r))),
                       length (store (snd (snd r)))))
        (main big_store ascii_tab Email True big_db)
       = Some ([0, 0 + (50 - 3)],
               [Merge (u ''lead_d'') (u ''lead_c''), Merge (u ''lead_e'') (u ''lead_c'')],
               60 - 2)
   \<and> [0, 0 + (50 - 3)] \<noteq> [0, 0 + (50 - 2 :: int)]"
  by code_simp

text \<open>
  Claim C2. The module's documentation gives the priority for the destination lead:
  leads with opportunities before leads without, then the lead created first. The page
  loop always merges into the lead it is visiting. On a store of two matching leads, the
  older without opportunities and the younger with one, it merges the younger lead, the
  one with the opportunity, into the older: the claim does not hold of the code.
\<close>

theorem destination_ignores_opportunities:
  "opportunities acme_a = []
   \<and> opportunities acme_b \<noteq> []
   \<and> map_option (\<lambda>r. filter is_merge (calls (snd (snd r))))
        (main any_store ascii_tab Company True [acme_a, acme_b])
       = Some [Merge (lead_id acme_b) (lead_id acme_a)]"
  by code_simp

subsection \<open>The query string\<close>

text \<open>
  \<^verbatim>\<open>find_duplicates_for_lead\<close> sends \<open>build_query comparator_field search_values\<close>
  with every request of a search. The bytes of the UTF-8 encoding of a code point, as
  numbers:
\<close>

lemma scalar_bound: "scalar_value c \<Longrightarrow> c < 0x110000"
  by (auto simp: scalar_value_def)

lemma of_char_utf8_char:
  assumes "c < 0x110000"
  shows "map of_char (utf8_char c) =
     (if c < 0x80 then [c]
      else if c < 0x800 then [0xC0 + c div 0x40, 0x80 + c mod 0x40]
      else if c < 0x10000 then
        [0xE0 + c div 0x1000, 0x80 + c div 0x40 mod 0x40, 0x80 + c mod 0x40]
      else
        [0xF0 + c div 0x40000, 0x80 + c div 0x1000 mod 0x40,
         0x80 + c div 0x40 mod 0x40, 0x80 + c mod 0x40 :: nat])"
proof -
  have low: "(0x80 + c mod 0x40) mod 256 = 0x80 + c mod 0x40"
    "(0x80 + c div 0x40 mod 0x40) mod 256 = 0x80 + c div 0x40 mod 0x40"
    "(0x80 + c div 0x1000 mod 0x40) mod 256 = 0x80 + c div 0x1000 mod 0x40"
    by (simp_all add: mod_less)
  have b1: "c < 0x80 \<Longrightarrow> c mod 256 = c"
    by simp
  have b2: "c < 0x800 \<Longrightarrow> (0xC0 + c div 0x40) mod 256 = 0xC0 + c div 0x40"
    by (simp add: div_less_iff_less_mult)
  have b3: "c < 0x10000 \<Longrightarrow> (0xE0 + c div 0x1000) mod 256 = 0xE0 + c div 0x1000"
    by (simp add: div_less_iff_less_mult)
  have b4: "(0xF0 + c div 0x40000) mod 256 = 0xF0 + c div 0x40000"
    using assms by (simp add: div_less_iff_less_mult)
  show ?thesis
    by (simp add: utf8_char_def low b1 b2 b3 b4)
qed

lemma base64_eq: "(a::nat) div 64 = b div 64 \<Longrightarrow> a mod 64 = b mod 64 \<Longrightarrow> a = b"
  by (metis div_mult_mod_eq)

lemma div_4096: "(a::nat) div 64 div 64 = a div 4096"
  by (simp add: div_mult2_eq[symmetric])

lemma div_262144: "(a::nat) div 4096 div 64 = a div 262144"
  by (simp add: div_mult2_eq[symmetric])

lemma bytes2_eq:
  assumes "(c::nat) div 64 = d div 64" "c mod 64 = d mod 64"
  shows "c = d"
  using assms by (rule base64_eq)

lemma bytes3_eq:
  assumes "(c::nat) div 4096 = d div 4096" "c div 64 mod 64 = d div 64 mod 64"
    "c mod 64 = d mod 64"
  shows "c = d"
proof -
  have "c div 64 = d div 64"
    by (rule base64_eq) (simp_all add: div_4096 assms)
  then show ?thesis using assms(3) by (rule base64_eq)
qed

lemma bytes4_eq:
  assumes "(c::nat) div 262144 = d div 262144" "c div 4096 mod 64 = d div 4096 mod 64"
    "c div 64 mod 64 = d div 64 mod 64" "c mod 64 = d mod 64"
  shows "c = d"
proof -
  have "c div 4096 = d div 4096"
    by (rule base64_eq) (simp_all add: div_262144 assms)
  then show ?thesis using assms(3,4) by (rule bytes3_eq)
qed

lemma lead_bounds:
  "(c::nat) < 0x800 \<Longrightarrow> c div 64 < 32"
  "(c::nat) < 0x10000 \<Longrightarrow> c div 4096 < 16"
  "(c::nat) < 0x110000 \<Longrightarrow> c div 262144 < 5"
  "(c::nat) \<ge> 0x80 \<Longrightarrow> c div 64 \<ge> 2"
  by (simp_all add: div_less_iff_less_mult less_eq_div_iff_mult_less_eq)

lemma utf8_char_prefix:
  assumes c: "c < 0x110000" and d: "d < 0x110000"
    and eq: "utf8_char c @ xs = utf8_char d @ ys"
  shows "c = d \<and> xs = ys"
proof -
  from eq have "map of_char (utf8_char c @ xs) = (map of_char (utf8_char d @ ys) :: nat list)"
    by simp
  then have m: "map of_char (utf8_char c) @ map of_char xs
      = map of_char (utf8_char d) @ (map of_char ys :: nat list)"
    by simp
  note lb = lead_bounds(1)[of c] lead_bounds(2)[of c] lead_bounds(3)[OF c]
    lead_bounds(1)[of d] lead_bounds(2)[of d] lead_bounds(3)[OF d]
  have "c = d"
    using m lb unfolding of_char_utf8_char[OF c] of_char_utf8_char[OF d]
    by (auto split: if_splits intro: bytes2_eq bytes3_eq bytes4_eq)
  with eq show ?thesis by simp
qed

lemma utf8_char_not_Nil: "utf8_char c \<noteq> []"
  by (simp add: utf8_char_def)

lemma encode_utf8_inj:
  assumes "list_all scalar_value v" and "list_all scalar_value w"
    and "encode_utf8 v = encode_utf8 w"
  shows "v = w"
  using assms
proof (induction v arbitrary: w)
  case Nil
  then show ?case
    by (cases w) (simp_all add: encode_utf8_def utf8_char_not_Nil)
next
  case (Cons c v)
  show ?case
  proof (cases w)
    case Nil
    with Cons.prems show ?thesis
      by (simp add: encode_utf8_def utf8_char_not_Nil)
  next
    case (Cons d w')
    with Cons.prems have e: "utf8_char c @ encode_utf8 v = utf8_char d @ encode_utf8 w'"
      and sc: "scalar_value c" "scalar_value d"
      and r: "list_all scalar_value v" "list_all scalar_value w'"
      by (simp_all add: encode_utf8_def)
    from utf8_char_prefix[OF scalar_bound[OF sc(1)] scalar_bound[OF sc(2)] e]
    have "c = d" "encode_utf8 v = encode_utf8 w'" by simp_all
    with Cons.IH[OF r] Cons show ?thesis by simp
  qed
qed

lemma utf8_char_no_quote:
  assumes "c < 0x110000" and "c \<noteq> 0x22"
  shows "CHR 0x22 \<notin> set (utf8_char c)"
proof
  assume "CHR 0x22 \<in> set (utf8_char c)"
  then have "of_char (CHR 0x22) \<in> of_char ` set (utf8_char c)"
    by (rule imageI)
  then have "(0x22::nat) \<in> set (map of_char (utf8_char c))"
    by simp
  then show False
    using assms unfolding of_char_utf8_char[OF assms(1)]
    by (simp split: if_splits)
qed

lemma encode_utf8_no_quote:
  assumes "quote_free val"
  shows "CHR 0x22 \<notin> set (encode_utf8 val)"
proof -
  have "\<forall>c \<in> set val. CHR 0x22 \<notin> set (utf8_char c)"
  proof
    fix c assume "c \<in> set val"
    with assms have "scalar_value c" "c \<noteq> 0x22"
      by (auto simp: quote_free_def list_all_iff)
    then show "CHR 0x22 \<notin> set (utf8_char c)"
      by (intro utf8_char_no_quote scalar_bound)
  qed
  then show ?thesis by (simp add: encode_utf8_def)
qed

lemma split_at_first:
  assumes "x \<notin> set xs" and "x \<notin> set ys" and "xs @ x # r = ys @ x # r'"
  shows "xs = ys \<and> r = r'"
proof -
  have "takeWhile (\<lambda>b. b \<noteq> x) (xs @ x # r) = xs"
    using assms(1) by (simp add: takeWhile_append)
  moreover have "takeWhile (\<lambda>b. b \<noteq> x) (ys @ x # r') = ys"
    using assms(2) by (simp add: takeWhile_append)
  ultimately have "xs = ys"
    using assms(3) by simp
  with assms(3) show ?thesis by simp
qed

lemma quoted_prefix:
  assumes "quote_free v" "quote_free w" "quoted v @ r = quoted w @ r'"
  shows "v = w \<and> r = r'"
proof -
  from assms(3) have "encode_utf8 v @ CHR 0x22 # r = encode_utf8 w @ CHR 0x22 # r'"
    by (simp add: quoted_def)
  from split_at_first[OF encode_utf8_no_quote[OF assms(1)] encode_utf8_no_quote[OF assms(2)] this]
  have "encode_utf8 v = encode_utf8 w" "r = r'"
    by simp_all
  with assms(1,2) show ?thesis
    by (auto simp: quote_free_def intro: encode_utf8_inj)
qed

lemma join_Cons:
  "join sep (x # xs) = x @ (if xs = [] then [] else sep @ join sep xs)"
  by (cases xs) simp_all

lemma join_quoted_inj:
  assumes "list_all quote_free vs" "list_all quote_free ws"
    and "join '', '' (map quoted vs) = join '', '' (map quoted ws)"
  shows "vs = ws"
  using assms
proof (induction vs arbitrary: ws)
  case Nil
  then show ?case
    by (cases ws) (simp_all add: join_Cons quoted_def)
next
  case (Cons v vs)
  show ?case
  proof (cases ws)
    case Nil
    with Cons.prems show ?thesis
      by (simp add: join_Cons quoted_def)
  next
    case (Cons w ws')
    let ?r = "if map quoted vs = [] then [] else '', '' @ join '', '' (map quoted vs)"
    let ?r' = "if map quoted ws' = [] then [] else '', '' @ join '', '' (map quoted ws')"
    from Cons.prems Cons have q: "quote_free v" "quote_free w"
      and rest: "list_all quote_free vs" "list_all quote_free ws'"
      and e: "quoted v @ ?r = quoted w @ ?r'"
      by (simp_all add: join_Cons)
    from quoted_prefix[OF q e] have vw: "v = w" and r: "?r = ?r'"
      by simp_all
    have "vs = ws'"
    proof (cases "vs = []")
      case True
      with r show ?thesis by (cases "ws' = []") simp_all
    next
      case False
      with r have "ws' \<noteq> []" by (cases "ws' = []") simp_all
      with False r have "join '', '' (map quoted vs) = join '', '' (map quoted ws')"
        by simp
      from Cons.IH[OF rest this] show ?thesis .
    qed
    with vw Cons show ?thesis by simp
  qed
qed

text \<open>
  Claim C8, as amended. The script puts each search value between two double quotes
  in its UTF-8 encoding and escapes nothing. For search values without a double quote,
  non-ASCII characters included, this is faithful: two lists of such values that give
  the same query are the same list, and the text of the query from the opening quote of
  a value up to the next double quote is the UTF-8 encoding of that value.
\<close>

theorem query_keeps_quote_free_values:
  assumes "list_all quote_free vs" and "list_all quote_free ws"
  shows "(build_query comparator_field vs = build_query comparator_field ws \<longleftrightarrow> vs = ws)
         \<and> (\<forall>val \<in> set vs.
               takeWhile (\<lambda>b. b \<noteq> CHR 0x22) (tl (quoted val)) = encode_utf8 val)"
proof (intro conjI ballI iffI)
  assume "build_query comparator_field vs = build_query comparator_field ws"
  then have "join '', '' (map quoted vs) = join '', '' (map quoted ws)"
    by (simp add: build_query_def)
  from join_quoted_inj[OF assms this] show "vs = ws" .
next
  assume "vs = ws"
  then show "build_query comparator_field vs = build_query comparator_field ws"
    by simp
next
  fix val assume "val \<in> set vs"
  with assms(1) have "quote_free val"
    by (simp add: list_all_iff)
  from encode_utf8_no_quote[OF this]
  show "takeWhile (\<lambda>b. b \<noteq> CHR 0x22) (tl (quoted val)) = encode_utf8 val"
    by (simp add: quoted_def takeWhile_append)
qed


theorem query_keeps_quote_free_values_witness:
  "list_all quote_free [[0x41, 0xE9, 0x20AC, 0x1F600]]
   \<and> list_all quote_free [[0x41, 0xE9, 0x20AC, 0x1F600]]
   \<and> (build_query Company [[0x41, 0xE9, 0x20AC, 0x1F600]]
         = build_query Company [[0x41, 0xE9, 0x20AC, 0x1F600]])
       = ([[0x41, 0xE9, 0x20AC, 0x1F600]] = [[0x41, 0xE9, 0x20AC, 0x1F600 :: nat]])
   \<and> takeWhile (\<lambda>b. b \<noteq> CHR 0x22) (tl (quoted [0x41, 0xE9, 0x20AC, 0x1F600]))
       = encode_utf8 [0x41, 0xE9, 0x20AC, 0x1F600]
   \<and> encode_utf8 [0x41, 0xE9, 0x20AC, 0x1F600]
       = [CHR 0x41, CHR 0xC3, CHR 0xA9, CHR 0xE2, CHR 0x82, CHR 0xAC,
          CHR 0xF0, CHR 0x9F, CHR 0x98, CHR 0x80]"
proof -
  have h: "list_all quote_free [[0x41, 0xE9, 0x20AC, 0x1F600]]"
    by code_simp
  have e: "encode_utf8 [0x41, 0xE9, 0x20AC, 0x1F600]
       = [CHR 0x41, CHR 0xC3, CHR 0xA9, CHR 0xE2, CHR 0x82, CHR 0xAC,
          CHR 0xF0, CHR 0x9F, CHR 0x98, CHR 0x80]"
    by code_simp
  from query_keeps_quote_free_values [OF h h, of Company] h e show ?thesis
    by simp
qed


text \<open>
  For a value with a double quote the claim fails: the one value \<^verbatim>\<open>a", "b\<close> gives
  the query of the two values \<^verbatim>\<open>a\<close> and \<^verbatim>\<open>b\<close>, and the text between the first pair
  of quotes is \<^verbatim>\<open>a\<close>.
\<close>

theorem quote_in_value_counterexample:
  "build_query Company [u ''a'' @ [0x22] @ u '', '' @ [0x22] @ u ''b'']
     = build_query Company [u ''a'', u ''b'']
   \<and> [u ''a'' @ [0x22] @ u '', '' @ [0x22] @ u ''b''] \<noteq> [u ''a'', u ''b'']
   \<and> takeWhile (\<lambda>b. b \<noteq> CHR 0x22) (tl (quoted (u ''a'' @ [0x22] @ u '', '' @ [0x22] @ u ''b'')))
       = encode_utf8 (u ''a'')
   \<and> encode_utf8 (u ''a'') \<noteq> encode_utf8 (u ''a'' @ [0x22] @ u '', '' @ [0x22] @ u ''b'')"
  by code_simp

end
